theory Spec2Isabelle
  imports Main "HOL-Library.AList" "HOL-Library.Multiset"
begin

section \<open>The building catalogue and Python's containers\<close>

text \<open>
  The module keeps one global dictionary \<open>BUILDINGS\<close>, from a building's name to its
  configuration. Python dictionaries iterate in insertion order, and both the optimiser and
  the evaluator iterate over dictionaries, so a dictionary is an association list here.
\<close>

datatype error = IndexError | KeyError | OverflowError | InvalidHorizon

record config =
  time :: int
  earning :: int
  code :: string

type_synonym dict = "(string \<times> int) list"

definition BUILDINGS :: "(string \<times> config) list" where
  "BUILDINGS =
     [(''Theatre'', \<lparr>time = 5, earning = 1500, code = ''T''\<rparr>),
      (''Pub'', \<lparr>time = 4, earning = 1000, code = ''P''\<rparr>),
      (''Commercial Park'', \<lparr>time = 10, earning = 3000, code = ''C''\<rparr>)]"

text \<open>
  \<open>[x] * n\<close>: the count is first converted to the machine's index type, and a count
  below \<open>-2^63\<close> raises OverflowError there; any other count that is not positive gives
  the empty list. A count too large for the index type or for memory is not modelled: the
  list is taken to fit.
\<close>

definition py_repeat :: "'a \<Rightarrow> int \<Rightarrow> error + 'a list" where
  "py_repeat x n = (if n < - (2 ^ 63) then Inl OverflowError else Inr (replicate (nat n) x))"

text \<open>\<open>xs[i]\<close>: a negative index counts from the end, anything out of range raises.\<close>

definition py_get :: "'a list \<Rightarrow> int \<Rightarrow> error + 'a" where
  "py_get xs i =
     (if 0 \<le> i \<and> i < int (length xs) then Inr (xs ! nat i)
      else if i < 0 \<and> - int (length xs) \<le> i then Inr (xs ! nat (int (length xs) + i))
      else Inl IndexError)"

text \<open>\<open>xs[i] = v\<close>, with the same index rule.\<close>

definition py_set :: "'a list \<Rightarrow> int \<Rightarrow> 'a \<Rightarrow> error + 'a list" where
  "py_set xs i v =
     (if 0 \<le> i \<and> i < int (length xs) then Inr (xs[nat i := v])
      else if i < 0 \<and> - int (length xs) \<le> i then Inr (xs[nat (int (length xs) + i) := v])
      else Inl IndexError)"

text \<open>\<open>d[k]\<close> on a dictionary raises KeyError for a missing key.\<close>

definition dict_get :: "('k \<times> 'v) list \<Rightarrow> 'k \<Rightarrow> error + 'v" where
  "dict_get d k = (case map_of d k of None \<Rightarrow> Inl KeyError | Some v \<Rightarrow> Inr v)"

text \<open>
  \<open>a == b\<close> on dictionaries ignores the insertion order: the same number of entries,
  and every entry of \<open>a\<close> is an entry of \<open>b\<close>.
\<close>

definition dict_eq :: "dict \<Rightarrow> dict \<Rightarrow> bool" where
  "dict_eq a b = (length a = length b \<and> list_all (\<lambda>(k, v). map_of b k = Some v) a)"

text \<open>\<open>x in xs\<close> on a list of dictionaries compares with \<open>==\<close>.\<close>

definition dict_in :: "dict \<Rightarrow> dict list \<Rightarrow> bool" where
  "dict_in x xs = list_ex (dict_eq x) xs"

section \<open>The optimiser: \<open>solve_dp_all_solutions\<close>\<close>

type_synonym dp_entry = "int \<times> dict list"

definition zero_solution :: dict where
  "zero_solution = [(''Theatre'', 0), (''Pub'', 0), (''Commercial Park'', 0)]"

text \<open>\<open>new_solution = prev_solution.copy(); new_solution[building] += 1\<close>\<close>

definition incr_count :: "string \<Rightarrow> dict \<Rightarrow> error + dict" where
  "incr_count building prev_solution =
     (case dict_get prev_solution building of
        Inl e \<Rightarrow> Inl e
      | Inr n \<Rightarrow> Inr (AList.update building (n + 1) prev_solution))"

text \<open>The loop of the strictly-better branch: every transformed solution is appended.\<close>

fun replace_solutions :: "string \<Rightarrow> dict list \<Rightarrow> dict list \<Rightarrow> error + dict list" where
  "replace_solutions building [] best_solutions = Inr best_solutions"
| "replace_solutions building (prev_solution # rest) best_solutions =
     (case incr_count building prev_solution of
        Inl e \<Rightarrow> Inl e
      | Inr new_solution \<Rightarrow> replace_solutions building rest (best_solutions @ [new_solution]))"

text \<open>The loop of the tie branch: a transformed solution is appended unless already there.\<close>

fun merge_solutions :: "string \<Rightarrow> dict list \<Rightarrow> dict list \<Rightarrow> error + dict list" where
  "merge_solutions building [] best_solutions = Inr best_solutions"
| "merge_solutions building (prev_solution # rest) best_solutions =
     (case incr_count building prev_solution of
        Inl e \<Rightarrow> Inl e
      | Inr new_solution \<Rightarrow>
          merge_solutions building rest
            (if \<not> dict_in new_solution best_solutions
             then best_solutions @ [new_solution] else best_solutions))"

text \<open>The body of \<open>for building, config in BUILDINGS.items()\<close> at time step \<open>t\<close>.\<close>

definition try_building ::
  "int \<Rightarrow> int \<Rightarrow> dp_entry list \<Rightarrow> string \<times> config \<Rightarrow> dp_entry \<Rightarrow> error + dp_entry" where
  "try_building time_units t dp item cur =
     (case item of (building, cfg) \<Rightarrow>
      case cur of (max_profit, best_solutions) \<Rightarrow>
        let build_time = time cfg; earning = earning cfg in
        if t \<ge> build_time then
          let operational_periods = time_units - t;
              total_earning = earning * operational_periods
          in case py_get dp (t - build_time) of
               Inl e \<Rightarrow> Inl e
             | Inr (prev_profit, prev_solutions) \<Rightarrow>
                 let new_profit = prev_profit + total_earning in
                 if new_profit > max_profit then
                   (case replace_solutions building prev_solutions [] of
                      Inl e \<Rightarrow> Inl e
                    | Inr bs \<Rightarrow> Inr (new_profit, bs))
                 else if new_profit = max_profit then
                   (case merge_solutions building prev_solutions best_solutions of
                      Inl e \<Rightarrow> Inl e
                    | Inr bs \<Rightarrow> Inr (max_profit, bs))
                 else Inr (max_profit, best_solutions)
        else Inr (max_profit, best_solutions))"

fun buildings_loop ::
  "int \<Rightarrow> int \<Rightarrow> dp_entry list \<Rightarrow> (string \<times> config) list \<Rightarrow> dp_entry \<Rightarrow> error + dp_entry" where
  "buildings_loop time_units t dp [] cur = Inr cur"
| "buildings_loop time_units t dp (item # items) cur =
     (case try_building time_units t dp item cur of
        Inl e \<Rightarrow> Inl e
      | Inr cur' \<Rightarrow> buildings_loop time_units t dp items cur')"

text \<open>
  \<open>for t in range(1, time_units + 1)\<close>: the step is seeded with the entry of \<open>t - 1\<close>
  (the list of solutions copied), runs over the catalogue and stores into \<open>dp[t]\<close>.
\<close>

fun time_loop :: "int \<Rightarrow> int list \<Rightarrow> dp_entry list \<Rightarrow> error + dp_entry list" where
  "time_loop time_units [] dp = Inr dp"
| "time_loop time_units (t # ts) dp =
     (case py_get dp (t - 1) of
        Inl e \<Rightarrow> Inl e
      | Inr (max_profit, best_solutions) \<Rightarrow>
          (case buildings_loop time_units t dp BUILDINGS (max_profit, best_solutions) of
             Inl e \<Rightarrow> Inl e
           | Inr entry \<Rightarrow>
               (case py_set dp t entry of
                  Inl e \<Rightarrow> Inl e
                | Inr dp' \<Rightarrow> time_loop time_units ts dp')))"

definition solve_dp_all_solutions :: "int \<Rightarrow> error + dp_entry" where
  "solve_dp_all_solutions time_units =
     (case py_repeat (0, [zero_solution]) (time_units + 1) of
        Inl e \<Rightarrow> Inl e
      | Inr dp \<Rightarrow>
          (case time_loop time_units [1..time_units] dp of
             Inl e \<Rightarrow> Inl e
           | Inr dp' \<Rightarrow> py_get dp' time_units))"

section \<open>The evaluator: \<open>calculate_profit\<close> and \<open>validate_solution\<close>\<close>

text \<open>
  Both routines run the same two nested loops over the entries of \<open>solution\<close>, in the
  dictionary's own order. The state they work on is the argument dictionary and the two
  local counters; the dictionary is part of the state so that what a call does to it can
  be stated.
\<close>

record eval_state =
  solution :: dict
  total_profit :: int
  current_time :: int

text \<open>\<open>for _ in range(count)\<close> inside \<open>calculate_profit\<close>.\<close>

fun calc_inner :: "int \<Rightarrow> int \<Rightarrow> int \<Rightarrow> nat \<Rightarrow> eval_state \<Rightarrow> eval_state" where
  "calc_inner time_units build_time earning_per_period 0 s = s"
| "calc_inner time_units build_time earning_per_period (Suc n) s =
     (let construction_end_time = current_time s + build_time;
          s1 = s\<lparr>current_time := construction_end_time\<rparr>;
          operational_periods = time_units - construction_end_time;
          s2 = (if operational_periods > 0
                then s1\<lparr>total_profit := total_profit s1 + earning_per_period * operational_periods\<rparr>
                else s1)
      in calc_inner time_units build_time earning_per_period n s2)"

text \<open>
  \<open>for building, count in solution.items()\<close> inside \<open>calculate_profit\<close>. A raise
  carries the state at that moment.
\<close>

fun calc_outer :: "int \<Rightarrow> (string \<times> int) list \<Rightarrow> eval_state \<Rightarrow> (error \<times> eval_state) + eval_state" where
  "calc_outer time_units [] s = Inr s"
| "calc_outer time_units ((building, cnt) # items) s =
     (if cnt > 0 then
        (case dict_get BUILDINGS building of
           Inl e \<Rightarrow> Inl (e, s)
         | Inr cfg \<Rightarrow>
             calc_outer time_units items
               (calc_inner time_units (time cfg) (earning cfg) (nat cnt) s))
      else calc_outer time_units items s)"

definition calculate_profit_run :: "int \<Rightarrow> dict \<Rightarrow> (error \<times> eval_state) + eval_state" where
  "calculate_profit_run time_units sol =
     (let s = \<lparr>solution = sol, total_profit = 0, current_time = 0\<rparr>
      in calc_outer time_units (solution s) s)"

definition calculate_profit :: "int \<Rightarrow> dict \<Rightarrow> error + int" where
  "calculate_profit time_units sol =
     (case calculate_profit_run time_units sol of
        Inl (e, s) \<Rightarrow> Inl e
      | Inr s \<Rightarrow> Inr (total_profit s))"

text \<open>The same loops as they are written again in \<open>validate_solution\<close>.\<close>

fun valid_inner :: "int \<Rightarrow> int \<Rightarrow> int \<Rightarrow> nat \<Rightarrow> eval_state \<Rightarrow> eval_state" where
  "valid_inner time_units build_time earning_per_period 0 s = s"
| "valid_inner time_units build_time earning_per_period (Suc n) s =
     (let construction_end_time = current_time s + build_time;
          s1 = s\<lparr>current_time := construction_end_time\<rparr>;
          operational_periods = time_units - construction_end_time;
          s2 = (if operational_periods > 0
                then s1\<lparr>total_profit := total_profit s1 + earning_per_period * operational_periods\<rparr>
                else s1)
      in valid_inner time_units build_time earning_per_period n s2)"

fun valid_outer :: "int \<Rightarrow> (string \<times> int) list \<Rightarrow> eval_state \<Rightarrow> (error \<times> eval_state) + eval_state" where
  "valid_outer time_units [] s = Inr s"
| "valid_outer time_units ((building, cnt) # items) s =
     (if cnt > 0 then
        (case dict_get BUILDINGS building of
           Inl e \<Rightarrow> Inl (e, s)
         | Inr cfg \<Rightarrow>
             valid_outer time_units items
               (valid_inner time_units (time cfg) (earning cfg) (nat cnt) s))
      else valid_outer time_units items s)"

definition validate_solution_run :: "int \<Rightarrow> dict \<Rightarrow> (error \<times> eval_state) + eval_state" where
  "validate_solution_run time_units sol =
     (let s = \<lparr>solution = sol, total_profit = 0, current_time = 0\<rparr>
      in valid_outer time_units (solution s) s)"

text \<open>Python's \<open>str\<close> of an integer and the format \<open>{:,}\<close> with thousands separators.\<close>

definition digit_char :: "nat \<Rightarrow> char" where
  "digit_char d = ''0123456789'' ! d"

function digits :: "nat \<Rightarrow> string" where
  "digits n = (if n < 10 then [digit_char n] else digits (n div 10) @ [digit_char (n mod 10)])"
  by pat_completeness auto
termination
  by (relation "measure id") auto

definition py_str :: "int \<Rightarrow> string" where
  "py_str i = (if i < 0 then CHR ''-'' # digits (nat (- i)) else digits (nat i))"

fun commas_rev :: "string \<Rightarrow> string" where
  "commas_rev (a # b # c # d # rest) = a # b # c # CHR '','' # commas_rev (d # rest)"
| "commas_rev ds = ds"

definition py_commas :: "int \<Rightarrow> string" where
  "py_commas i =
     (if i < 0 then CHR ''-'' # rev (commas_rev (rev (digits (nat (- i)))))
      else rev (commas_rev (rev (digits (nat i)))))"

definition validation_message :: "int \<Rightarrow> int \<Rightarrow> int \<Rightarrow> string" where
  "validation_message total_time_used time_units profit =
     ''Time used: '' @ py_str total_time_used @ ''/'' @ py_str time_units
       @ '', Profit: $'' @ py_commas profit"

definition validate_solution :: "int \<Rightarrow> dict \<Rightarrow> error + (bool \<times> int \<times> string)" where
  "validate_solution time_units sol =
     (case validate_solution_run time_units sol of
        Inl (e, s) \<Rightarrow> Inl e
      | Inr s \<Rightarrow>
          (let total_time_used = current_time s;
               is_valid = (total_time_used \<le> time_units);
               message = validation_message total_time_used time_units (total_profit s)
           in Inr (is_valid, total_profit s, message)))"

text \<open>The dictionary as the caller finds it once the call has returned or raised.\<close>

definition solution_after :: "(error \<times> eval_state) + eval_state \<Rightarrow> dict" where
  "solution_after r = (case r of Inl (e, s) \<Rightarrow> solution s | Inr s \<Rightarrow> solution s)"

section \<open>Reference definitions, following the specification's words\<close>

text \<open>
  The reference recurrence for the best profit at horizon \<open>h\<close>: \<open>V h 0 = 0\<close>, and at a
  step \<open>t > 0\<close> the larger of \<open>V h (t - 1)\<close> and, over the catalogue entries whose
  duration is at most \<open>t\<close>, of \<open>V h (t - duration) + rate * max (h - t) 0\<close>.
\<close>

function V :: "int \<Rightarrow> nat \<Rightarrow> int" where
  "V h 0 = 0"
| "V h (Suc n) =
     fold (\<lambda>(b, cfg) best.
             if time cfg \<le> int (Suc n)
             then max best (V h (Suc n - nat (time cfg)) + earning cfg * max (h - int (Suc n)) 0)
             else best)
          BUILDINGS (V h n)"
  by pat_completeness auto
termination
  by (relation "measure snd") (auto simp: BUILDINGS_def)

text \<open>
  The evaluator-style simulation of a sequence of building instances (each named by its
  type): built back to back from time 0, an instance earns its rate for every period
  left after it is finished. The result is the profit and the time used.
\<close>

fun simulate_from :: "int \<Rightarrow> string list \<Rightarrow> int \<times> int \<Rightarrow> error + (int \<times> int)" where
  "simulate_from horizon [] st = Inr st"
| "simulate_from horizon (b # bs) (profit, now) =
     (case dict_get BUILDINGS b of
        Inl e \<Rightarrow> Inl e
      | Inr cfg \<Rightarrow>
          (let finish = now + time cfg;
               operating_periods = max (horizon - finish) 0
           in simulate_from horizon bs (profit + earning cfg * operating_periods, finish)))"

definition simulate :: "int \<Rightarrow> string list \<Rightarrow> error + (int \<times> int)" where
  "simulate horizon bs = simulate_from horizon bs (0, 0)"

text \<open>The count a combination gives to a building type (0 when it has no entry).\<close>

definition count_of :: "dict \<Rightarrow> string \<Rightarrow> int" where
  "count_of c b = (case map_of c b of None \<Rightarrow> 0 | Some n \<Rightarrow> n)"

text \<open>The instances of a combination in the order of its own entries.\<close>

definition instances :: "dict \<Rightarrow> string list" where
  "instances c = concat (map (\<lambda>(b, n). replicate (nat n) b) c)"


text \<open>The construction time of a combination: the sum of count times duration.\<close>

definition time_needed :: "dict \<Rightarrow> int" where
  "time_needed c = (\<Sum>(b, cfg) \<leftarrow> BUILDINGS. count_of c b * time cfg)"

section \<open>Notions used in the proofs\<close>

text \<open>Duration and rate of a building type by name, and the time a sequence takes.\<close>

definition dur :: "string \<Rightarrow> int" where
  "dur b = (case map_of BUILDINGS b of None \<Rightarrow> 0 | Some cfg \<Rightarrow> time cfg)"

definition rate :: "string \<Rightarrow> int" where
  "rate b = (case map_of BUILDINGS b of None \<Rightarrow> 0 | Some cfg \<Rightarrow> earning cfg)"

definition span :: "string list \<Rightarrow> int" where
  "span bs = sum_list (map dur bs)"

fun gain :: "int \<Rightarrow> int \<Rightarrow> string list \<Rightarrow> int" where
  "gain h now [] = 0"
| "gain h now (b # bs) = rate b * (h - (now + dur b)) + gain h (now + dur b) bs"

definition bump :: "string \<Rightarrow> dict \<Rightarrow> dict" where
  "bump b c = AList.update b (count_of c b + 1) c"

definition wf_solution :: "dict \<Rightarrow> bool" where
  "wf_solution c = (map fst c = map fst BUILDINGS \<and> list_all (\<lambda>(b, n). 0 \<le> n) c)"

definition vstep :: "int \<Rightarrow> nat \<Rightarrow> string \<times> config \<Rightarrow> int \<Rightarrow> int" where
  "vstep h t = (\<lambda>(b, cfg) best.
             if time cfg \<le> int t
             then max best (V h (t - nat (time cfg)) + earning cfg * max (h - int t) 0)
             else best)"

definition sol_ok :: "int \<Rightarrow> nat \<Rightarrow> int \<Rightarrow> dict \<Rightarrow> bool" where
  "sol_ok h t p c =
     (wf_solution c \<and>
      (\<exists>bs. mset bs = mset (instances c) \<and> span bs \<le> int t \<and> p \<le> gain h 0 bs))"

definition sols_ok :: "int \<Rightarrow> nat \<Rightarrow> int \<Rightarrow> dict list \<Rightarrow> bool" where
  "sols_ok h t p S = (S \<noteq> [] \<and> distinct S \<and> (\<forall>c \<in> set S. sol_ok h t p c))"

text \<open>The table is filled correctly up to index \<open>k\<close>.\<close>

definition table_ok :: "int \<Rightarrow> nat \<Rightarrow> dp_entry list \<Rightarrow> bool" where
  "table_ok h k dp =
     (length dp = Suc (nat h) \<and>
      (\<forall>i \<le> k. fst (dp ! i) = V h i \<and> sols_ok h i (V h i) (snd (dp ! i))))"

text \<open>All per-type counts of two combinations are equal.\<close>

definition same_counts :: "dict \<Rightarrow> dict \<Rightarrow> bool" where
  "same_counts a b = list_all (\<lambda>(name, cfg). count_of a name = count_of b name) BUILDINGS"

section \<open>The evaluator's two routines\<close>

lemma solution_after_simps:
  "solution_after (Inl (e, s)) = solution s" "solution_after (Inr s) = solution s"
  by (simp_all add: solution_after_def)

lemma calc_inner_solution:
  "solution (calc_inner h bt e n s) = solution s"
  by (induction n arbitrary: s) (simp_all add: Let_def)

lemma valid_inner_solution:
  "solution (valid_inner h bt e n s) = solution s"
  by (induction n arbitrary: s) (simp_all add: Let_def)

lemma calc_outer_solution:
  "solution_after (calc_outer h items s) = solution s"
proof (induction items arbitrary: s)
  case Nil
  show ?case by (simp add: solution_after_simps)
next
  case (Cons item items)
  obtain building cnt where item: "item = (building, cnt)" by (cases item)
  show ?case
    by (cases "dict_get BUILDINGS building")
       (simp_all add: item Cons.IH calc_inner_solution solution_after_simps)
qed

lemma valid_outer_solution:
  "solution_after (valid_outer h items s) = solution s"
proof (induction items arbitrary: s)
  case Nil
  show ?case by (simp add: solution_after_simps)
next
  case (Cons item items)
  obtain building cnt where item: "item = (building, cnt)" by (cases item)
  show ?case
    by (cases "dict_get BUILDINGS building")
       (simp_all add: item Cons.IH valid_inner_solution solution_after_simps)
qed

text \<open>
  Claim C9. For every horizon and every combination, a call of \<open>validate_solution\<close> or of
  \<open>calculate_profit\<close> leaves the combination as it was: the dictionary in the state the
  call ends in, whether it returns or raises, is the argument.
\<close>

theorem evaluator_leaves_solution_unchanged:
  "solution_after (validate_solution_run h c) = c \<and> solution_after (calculate_profit_run h c) = c"
  by (simp add: validate_solution_run_def calculate_profit_run_def
        valid_outer_solution calc_outer_solution)

lemma valid_inner_eq_calc_inner:
  "valid_inner h bt e n s = calc_inner h bt e n s"
  by (induction n arbitrary: s) (simp_all add: Let_def)

lemma valid_outer_eq_calc_outer:
  "valid_outer h items s = calc_outer h items s"
proof (induction items arbitrary: s)
  case Nil
  show ?case by simp
next
  case (Cons item items)
  obtain building cnt where item: "item = (building, cnt)" by (cases item)
  show ?case
    by (simp add: item Cons.IH valid_inner_eq_calc_inner split: sum.splits)
qed

text \<open>
  Claim C8. For every horizon and every combination, \<open>calculate_profit\<close> returns the
  profit component of what \<open>validate_solution\<close> returns, and raises where it raises.
\<close>

theorem calculate_profit_eq_validate_profit:
  "calculate_profit h c =
     (case validate_solution h c of
        Inl e \<Rightarrow> Inl e
      | Inr (is_valid, profit, message) \<Rightarrow> Inr profit)"
  by (simp add: calculate_profit_def validate_solution_def calculate_profit_run_def
        validate_solution_run_def valid_outer_eq_calc_outer Let_def split: sum.splits prod.splits)

section \<open>Negative horizons\<close>

text \<open>
  Claim C5, as the specification has it: a negative horizon is rejected as a typed
  \<open>InvalidHorizon\<close> failure before any work is done. The optimiser has no such check: at
  horizon \<open>-1\<close> the table is empty, the loop does not run and the final \<open>dp[time_units]\<close>
  raises \<open>IndexError\<close>.
\<close>

theorem negative_horizon_not_invalid_horizon:
  "solve_dp_all_solutions (-1) = Inl IndexError \<and> solve_dp_all_solutions (-1) \<noteq> Inl InvalidHorizon"
  by (simp add: solve_dp_all_solutions_def py_repeat_def py_get_def)

text \<open>
  Claim C5, amended: for every negative horizon the optimiser returns no value and no
  partial state, and the failure is one of Python's own. From \<open>-2^63 - 1\<close> up to \<open>-1\<close>
  the table is allocated empty, the loop over the time steps leaves it empty, and the final
  lookup \<open>dp[time_units]\<close> raises \<open>IndexError\<close>. Below \<open>-2^63 - 1\<close> the allocation of the
  table itself raises \<open>OverflowError\<close>.
\<close>

theorem negative_horizon_failure:
  "h < 0 \<Longrightarrow>
     (if h + 1 < - (2 ^ 63)
      then py_repeat (0 :: int, [zero_solution]) (h + 1) = Inl OverflowError
         \<and> solve_dp_all_solutions h = Inl OverflowError
      else py_repeat (0 :: int, [zero_solution]) (h + 1) = Inr []
         \<and> time_loop h [1..h] [] = Inr []
         \<and> py_get ([] :: dp_entry list) h = Inl IndexError
         \<and> solve_dp_all_solutions h = Inl IndexError)"
  by (simp add: solve_dp_all_solutions_def py_repeat_def py_get_def)

theorem negative_horizon_failure_witness:
  "(-3 :: int) < 0
   \<and> py_repeat (0 :: int, [zero_solution]) (-3 + 1) = Inr []
   \<and> time_loop (-3) [1..-3] [] = Inr []
   \<and> py_get ([] :: dp_entry list) (-3) = Inl IndexError
   \<and> solve_dp_all_solutions (-3) = Inl IndexError
   \<and> (- (2 ^ 63) - 2 :: int) < 0
   \<and> py_repeat (0 :: int, [zero_solution]) (- (2 ^ 63) - 2 + 1) = Inl OverflowError
   \<and> solve_dp_all_solutions (- (2 ^ 63) - 2) = Inl OverflowError"
  using negative_horizon_failure [of "-3"] negative_horizon_failure [of "- (2 ^ 63) - 2"]
  by simp

section \<open>Facts about the catalogue and about solutions\<close>

lemma names_BUILDINGS: "map fst BUILDINGS = [''Theatre'', ''Pub'', ''Commercial Park'']"
  by (simp add: BUILDINGS_def)

lemma distinct_names: "distinct (map fst BUILDINGS)"
  by (simp add: names_BUILDINGS)

lemma in_BUILDINGS:
  assumes "(b, cfg) \<in> set BUILDINGS"
  shows "map_of BUILDINGS b = Some cfg" "0 < time cfg" "0 \<le> earning cfg"
    "dur b = time cfg" "rate b = earning cfg"
  using assms by (auto simp: BUILDINGS_def dur_def rate_def)

lemma name_in_BUILDINGS:
  assumes "b \<in> set (map fst BUILDINGS)"
  shows "\<exists>cfg. (b, cfg) \<in> set BUILDINGS"
  using assms by auto

lemma V_Suc: "V h (Suc n) = fold (vstep h (Suc n)) BUILDINGS (V h n)"
  by (simp add: vstep_def)

declare V.simps(2) [simp del]

lemma same_keys_subset_eq:
  "map fst a = map fst b \<Longrightarrow> distinct (map fst a) \<Longrightarrow> set a \<subseteq> set b \<Longrightarrow> a = b"
proof (induction a arbitrary: b)
  case Nil
  then show ?case by simp
next
  case (Cons x a)
  then obtain y b' where b: "b = y # b'" by (cases b) auto
  from Cons.prems b have keys: "fst x = fst y" "map fst a = map fst b'" by auto
  from Cons.prems(2) have dist: "fst x \<notin> fst ` set a" "distinct (map fst a)" by simp_all
  have "x = y"
  proof (rule ccontr)
    assume "x \<noteq> y"
    with Cons.prems(3) b have "x \<in> set b'" by auto
    then have "fst x \<in> set (map fst b')" by force
    with keys dist show False by (metis list.set_map)
  qed
  moreover have "set a \<subseteq> set b'"
  proof
    fix z assume z: "z \<in> set a"
    with Cons.prems(3) b have "z = y \<or> z \<in> set b'" by auto
    moreover have "z \<noteq> y" using z dist \<open>x = y\<close> by force
    ultimately show "z \<in> set b'" by simp
  qed
  ultimately show ?case using Cons.IH [OF keys(2) dist(2)] b by simp
qed

lemma dict_eq_same_keys:
  assumes "map fst a = map fst b" "distinct (map fst a)"
  shows "dict_eq a b \<longleftrightarrow> a = b"
proof
  assume eq: "dict_eq a b"
  have "set a \<subseteq> set b"
  proof
    fix x assume "x \<in> set a"
    with eq have "map_of b (fst x) = Some (snd x)"
      by (auto simp: dict_eq_def list_all_iff)
    then show "x \<in> set b" by (metis map_of_SomeD prod.collapse)
  qed
  with assms show "a = b" by (rule same_keys_subset_eq)
next
  assume "a = b"
  with assms(2) show "dict_eq a b"
    by (auto simp: dict_eq_def list_all_iff)
qed

lemma dict_in_wf:
  assumes "wf_solution x" "\<forall>c \<in> set S. wf_solution c"
  shows "dict_in x S \<longleftrightarrow> x \<in> set S"
proof -
  have "dict_eq x c \<longleftrightarrow> x = c" if "c \<in> set S" for c
    using that assms distinct_names by (intro dict_eq_same_keys) (auto simp: wf_solution_def)
  then show ?thesis by (auto simp: dict_in_def list_ex_iff)
qed

lemma wf_solution_key:
  assumes "wf_solution c" "(b, cfg) \<in> set BUILDINGS"
  shows "\<exists>n. map_of c b = Some n \<and> 0 \<le> n"
proof -
  from assms have "b \<in> fst ` set c"
    by (metis wf_solution_def list.set_map image_eqI fst_conv)
  then obtain n where n: "map_of c b = Some n"
    by (metis domD dom_map_of_conv_image_fst)
  then have "(b, n) \<in> set c" by (rule map_of_SomeD)
  with assms(1) have "0 \<le> n" by (auto simp: wf_solution_def list_all_iff)
  with n show ?thesis by blast
qed

lemma incr_count_wf:
  assumes "wf_solution c" "(b, cfg) \<in> set BUILDINGS"
  shows "incr_count b c = Inr (bump b c)"
  using wf_solution_key [OF assms]
  by (auto simp: incr_count_def dict_get_def bump_def count_of_def)

lemma map_fst_update:
  "map_of c b = Some n \<Longrightarrow> map fst (AList.update b m c) = map fst c"
  by (induction c) (auto split: if_splits)

lemma set_update_subset:
  "set (AList.update b m c) \<subseteq> insert (b, m) (set c)"
  by (induction c) auto

lemma bump_wf:
  assumes "wf_solution c" "(b, cfg) \<in> set BUILDINGS"
  shows "wf_solution (bump b c)"
proof -
  obtain n where n: "map_of c b = Some n" "0 \<le> n"
    using wf_solution_key [OF assms] by blast
  have "map fst (bump b c) = map fst c"
    using n by (simp add: bump_def map_fst_update)
  moreover have "0 \<le> snd x" if "x \<in> set (bump b c)" for x
  proof -
    from that n(1) have "x \<in> insert (b, n + 1) (set c)"
      using set_update_subset [of b "n + 1" c] by (auto simp: bump_def count_of_def)
    then show ?thesis using n(2) assms(1)
      by (auto simp: wf_solution_def list_all_iff)
  qed
  ultimately show ?thesis using assms(1)
    by (auto simp: wf_solution_def list_all_iff)
qed

lemma instances_update:
  "map_of c b = Some n \<Longrightarrow> 0 \<le> n \<Longrightarrow>
   mset (instances (AList.update b (n + 1) c)) = add_mset b (mset (instances c))"
proof (induction c)
  case Nil
  then show ?case by simp
next
  case (Cons x c)
  obtain k v where x: "x = (k, v)" by (cases x)
  show ?case
  proof (cases "k = b")
    case True
    with Cons.prems x have "v = n" by simp
    with True x Cons.prems(2) show ?thesis
      by (simp add: instances_def nat_add_distrib)
  next
    case False
    with Cons x show ?thesis by (simp add: instances_def)
  qed
qed

lemma instances_bump:
  assumes "wf_solution c" "(b, cfg) \<in> set BUILDINGS"
  shows "mset (instances (bump b c)) = add_mset b (mset (instances c))"
proof -
  obtain n where n: "map_of c b = Some n" "0 \<le> n"
    using wf_solution_key [OF assms] by blast
  then show ?thesis using instances_update [OF n]
    by (simp add: bump_def count_of_def)
qed

lemma update_inject:
  "map_of c b = Some n \<Longrightarrow> map_of c' b = Some n' \<Longrightarrow> map fst c = map fst c' \<Longrightarrow>
   AList.update b (n + 1) c = AList.update b (n' + 1) c' \<Longrightarrow> c = (c' :: dict)"
proof (induction c arbitrary: c')
  case Nil
  then show ?case by simp
next
  case (Cons x c)
  then obtain y d where c': "c' = y # d" by (cases c') auto
  obtain k v where x: "x = (k, v)" by (cases x)
  obtain k' v' where y: "y = (k', v')" by (cases y)
  from Cons.prems(3) c' x y have k: "k' = k" "map fst c = map fst d" by auto
  show ?case
  proof (cases "k = b")
    case True
    with Cons.prems c' x y k show ?thesis by simp
  next
    case False
    with Cons.prems c' x y k have "c = d \<and> v = v'"
      by (auto intro: Cons.IH)
    with c' x y k show ?thesis by simp
  qed
qed

lemma bump_inject:
  assumes "wf_solution c" "wf_solution c'" "(b, cfg) \<in> set BUILDINGS" "bump b c = bump b c'"
  shows "c = c'"
proof -
  obtain n where n: "map_of c b = Some n" using wf_solution_key [OF assms(1,3)] by blast
  obtain n' where n': "map_of c' b = Some n'" using wf_solution_key [OF assms(2,3)] by blast
  have "map fst c = map fst c'" using assms(1,2) by (simp add: wf_solution_def)
  with n n' assms(4) show ?thesis
    by (intro update_inject [OF n n']) (simp_all add: bump_def count_of_def)
qed

section \<open>The reference recurrence and schedules\<close>

lemma span_append: "span (xs @ ys) = span xs + span ys"
  by (simp add: span_def)

lemma span_mset: "mset xs = mset ys \<Longrightarrow> span xs = span ys"
  unfolding span_def by (metis mset_map sum_mset_sum_list)

lemma gain_snoc:
  "gain h now (bs @ [b]) = gain h now bs + rate b * (h - (now + span bs + dur b))"
proof (induction bs arbitrary: now)
  case Nil
  show ?case by (simp add: span_def)
next
  case (Cons a bs)
  show ?case using Cons.IH [of "now + dur a"]
    by (simp add: span_def algebra_simps)
qed

lemma dur_nonneg: "0 \<le> dur b"
  by (simp add: dur_def BUILDINGS_def)

lemma span_nonneg: "0 \<le> span bs"
  unfolding span_def by (induction bs) (simp_all add: dur_nonneg)

lemma vstep_ge: "best \<le> vstep h t item best"
  by (cases item) (simp add: vstep_def)

lemma fold_vstep_ge: "best \<le> fold (vstep h t) items best"
proof (induction items arbitrary: best)
  case Nil
  show ?case by simp
next
  case (Cons item items)
  have "best \<le> vstep h t item best" by (rule vstep_ge)
  also have "\<dots> \<le> fold (vstep h t) items (vstep h t item best)" by (rule Cons.IH)
  finally show ?case by simp
qed

lemma fold_vstep_candidate:
  assumes "(b, cfg) \<in> set items" "time cfg \<le> int t"
  shows "V h (t - nat (time cfg)) + earning cfg * max (h - int t) 0 \<le> fold (vstep h t) items best"
  using assms
proof (induction items arbitrary: best)
  case Nil
  then show ?case by simp
next
  case (Cons item items)
  show ?case
  proof (cases "item = (b, cfg)")
    case True
    have "V h (t - nat (time cfg)) + earning cfg * max (h - int t) 0 \<le> vstep h t item best"
      using True Cons.prems(2) by (simp add: vstep_def)
    also have "\<dots> \<le> fold (vstep h t) items (vstep h t item best)" by (rule fold_vstep_ge)
    finally show ?thesis by simp
  next
    case False
    with Cons.prems have "(b, cfg) \<in> set items" by simp
    from Cons.IH [OF this Cons.prems(2)] show ?thesis by simp
  qed
qed

lemma V_Suc_ge: "V h n \<le> V h (Suc n)"
  unfolding V_Suc by (rule fold_vstep_ge)

lemma V_mono: "n \<le> m \<Longrightarrow> V h n \<le> V h m"
  by (rule lift_Suc_mono_le [of "V h", OF V_Suc_ge])

lemma V_candidate:
  assumes "(b, cfg) \<in> set BUILDINGS" "time cfg \<le> int (Suc n)"
  shows "V h (Suc n - nat (time cfg)) + earning cfg * max (h - int (Suc n)) 0 \<le> V h (Suc n)"
  unfolding V_Suc by (rule fold_vstep_candidate [OF assms])

lemma gain_le_V:
  assumes "set bs \<subseteq> set (map fst BUILDINGS)" "span bs \<le> int t" "int t \<le> h"
  shows "gain h 0 bs \<le> V h t"
  using assms
proof (induction bs arbitrary: t rule: rev_induct)
  case Nil
  have "V h 0 \<le> V h t" by (rule V_mono) simp
  then show ?case by simp
next
  case (snoc b bs)
  from snoc.prems(1) obtain cfg where cfg: "(b, cfg) \<in> set BUILDINGS" by auto
  note facts = in_BUILDINGS [OF cfg]
  define T where "T = nat (span bs + dur b)"
  have sp: "0 \<le> span bs" by (rule span_nonneg)
  have T: "int T = span bs + dur b" using sp facts by (simp add: T_def)
  have Tt: "T \<le> t" using snoc.prems(2) T by (simp add: span_append span_def)
  obtain n where n: "T = Suc n" using T sp facts by (cases T) auto
  have Ts: "T - nat (time cfg) = nat (span bs)" using T facts sp by simp
  have "gain h 0 bs \<le> V h (nat (span bs))"
    using snoc.prems sp Tt T facts by (intro snoc.IH) auto
  moreover have "V h (T - nat (time cfg)) + earning cfg * max (h - int T) 0 \<le> V h T"
    unfolding n using cfg by (rule V_candidate) (use T n facts sp in simp)
  moreover have "max (h - int T) 0 = h - int T" using Tt snoc.prems(3) by simp
  ultimately have "gain h 0 (bs @ [b]) \<le> V h T"
    using T facts Ts by (simp add: gain_snoc)
  also have "\<dots> \<le> V h t" using Tt by (rule V_mono)
  finally show ?case .
qed

lemma V_horizon_mono: "h \<le> h' \<Longrightarrow> V h n \<le> V h' n"
proof (induction n rule: less_induct)
  case (less n)
  show ?case
  proof (cases n)
    case 0
    then show ?thesis by simp
  next
    case (Suc m)
    have step: "fold (vstep h (Suc m)) items a \<le> fold (vstep h' (Suc m)) items a'"
      if "a \<le> a'" "set items \<subseteq> set BUILDINGS" for items a a'
      using that
    proof (induction items arbitrary: a a')
      case Nil
      then show ?case by simp
    next
      case (Cons item items)
      obtain b cfg where item: "item = (b, cfg)" by (cases item)
      with Cons.prems have cfg: "(b, cfg) \<in> set BUILDINGS" by simp
      note facts = in_BUILDINGS [OF cfg]
      have "V h (Suc m - nat (time cfg)) \<le> V h' (Suc m - nat (time cfg))"
        using less.prems facts Suc by (intro less.IH) auto
      moreover have "earning cfg * max (h - int (Suc m)) 0 \<le> earning cfg * max (h' - int (Suc m)) 0"
        using less.prems facts by (intro mult_left_mono) auto
      ultimately have "max a (V h (Suc m - nat (time cfg)) + earning cfg * max (h - int (Suc m)) 0)
          \<le> max a' (V h' (Suc m - nat (time cfg)) + earning cfg * max (h' - int (Suc m)) 0)"
        using Cons.prems(1) by (intro max.mono add_mono)
      then have "vstep h (Suc m) item a \<le> vstep h' (Suc m) item a'"
        using Cons.prems(1) item by (simp add: vstep_def)
      then show ?case using Cons.prems(2) by (simp add: Cons.IH)
    qed
    have "V h m \<le> V h' m" using less.prems Suc by (intro less.IH) auto
    then show ?thesis unfolding Suc V_Suc by (rule step) simp
  qed
qed

section \<open>The optimiser's loops\<close>

lemma replace_solutions_ok:
  assumes "\<forall>c \<in> set ps. wf_solution c" "(b, cfg) \<in> set BUILDINGS"
  shows "replace_solutions b ps acc = Inr (acc @ map (bump b) ps)"
  using assms(1)
proof (induction ps arbitrary: acc)
  case Nil
  show ?case by simp
next
  case (Cons p ps)
  then have "incr_count b p = Inr (bump b p)"
    using assms(2) by (intro incr_count_wf) auto
  with Cons show ?case by simp
qed

lemma merge_solutions_ok:
  assumes "\<forall>c \<in> set ps. wf_solution c" "\<forall>c \<in> set acc. wf_solution c"
    and "(b, cfg) \<in> set BUILDINGS"
  shows "\<exists>acc'. merge_solutions b ps acc = Inr acc' \<and> set acc' = set acc \<union> bump b ` set ps
           \<and> (distinct acc \<longrightarrow> distinct acc')"
  using assms(1,2)
proof (induction ps arbitrary: acc)
  case Nil
  show ?case by simp
next
  case (Cons p ps)
  have p: "wf_solution p" using Cons.prems(1) by simp
  have inc: "incr_count b p = Inr (bump b p)"
    using p assms(3) by (rule incr_count_wf)
  have wfb: "wf_solution (bump b p)" using p assms(3) by (rule bump_wf)
  have mem: "dict_in (bump b p) acc \<longleftrightarrow> bump b p \<in> set acc"
    using wfb Cons.prems(2) by (rule dict_in_wf)
  define acc1 where "acc1 = (if \<not> dict_in (bump b p) acc then acc @ [bump b p] else acc)"
  have acc1: "set acc1 = insert (bump b p) (set acc)" "distinct acc \<longrightarrow> distinct acc1"
    "\<forall>c \<in> set acc1. wf_solution c"
    using mem wfb Cons.prems(2) by (auto simp: acc1_def)
  from Cons.prems(1) have "\<forall>c \<in> set ps. wf_solution c" by simp
  from Cons.IH [OF this acc1(3)] obtain acc' where
    acc': "merge_solutions b ps acc1 = Inr acc'" "set acc' = set acc1 \<union> bump b ` set ps"
      "distinct acc1 \<longrightarrow> distinct acc'" by blast
  have "merge_solutions b (p # ps) acc = Inr acc'"
    using inc acc'(1) by (simp add: acc1_def)
  with acc' acc1 show ?case by auto
qed

lemma sol_ok_weaken:
  "sol_ok h t p c \<Longrightarrow> p' \<le> p \<Longrightarrow> t \<le> t' \<Longrightarrow> sol_ok h t' p' c"
  unfolding sol_ok_def by (elim conjE exE) (intro conjI exI, assumption+, linarith+)

lemma sol_ok_bump:
  assumes ok: "sol_ok h i p c" and cfg: "(b, cfg) \<in> set BUILDINGS"
    and t: "int i + time cfg \<le> int t"
  shows "sol_ok h t (p + earning cfg * (h - int t)) (bump b c)"
proof -
  note facts = in_BUILDINGS [OF cfg]
  from ok obtain bs where wf: "wf_solution c"
    and bs: "mset bs = mset (instances c)" "span bs \<le> int i" "p \<le> gain h 0 bs"
    by (auto simp: sol_ok_def)
  have "mset (bs @ [b]) = mset (instances (bump b c))"
    using bs(1) instances_bump [OF wf cfg] by simp
  moreover have fin: "span bs + dur b \<le> int t"
    using bs(2) t facts by simp
  then have "span (bs @ [b]) \<le> int t" by (simp add: span_append span_def)
  moreover have "earning cfg * (h - int t) \<le> rate b * (h - (span bs + dur b))"
    using fin facts by (simp add: mult_left_mono)
  then have "p + earning cfg * (h - int t) \<le> gain h 0 (bs @ [b])"
    using bs(3) by (simp add: gain_snoc)
  ultimately show ?thesis using bump_wf [OF wf cfg]
    unfolding sol_ok_def by blast
qed

lemma try_building_ok:
  assumes cfg: "(b, cfg) \<in> set BUILDINGS" and n: "int (Suc n) \<le> h"
    and tab: "table_ok h n dp" and cur: "sols_ok h (Suc n) mp best"
  shows "\<exists>best'. try_building h (int (Suc n)) dp (b, cfg) (mp, best)
                   = Inr (vstep h (Suc n) (b, cfg) mp, best')
           \<and> sols_ok h (Suc n) (vstep h (Suc n) (b, cfg) mp) best'"
proof (cases "time cfg \<le> int (Suc n)")
  case False
  with cur show ?thesis by (simp add: try_building_def vstep_def)
next
  case True
  note facts = in_BUILDINGS [OF cfg]
  define i where "i = Suc n - nat (time cfg)"
  have i: "int i = int (Suc n) - time cfg" "i \<le> n"
    using True facts by (auto simp: i_def)
  have len: "length dp = Suc (nat h)" using tab by (simp add: table_ok_def)
  obtain pp ps where entry: "dp ! i = (pp, ps)" by (cases "dp ! i")
  have pp: "pp = V h i" and ps: "sols_ok h i (V h i) ps"
    using tab i(2) entry by (auto simp: table_ok_def)
  have get: "py_get dp (int (Suc n) - time cfg) = Inr (pp, ps)"
    using i n len entry unfolding py_get_def i(1) [symmetric] by simp
  have clamp: "max (h - int (Suc n)) 0 = h - int (Suc n)" using n by simp
  define new where "new = V h i + earning cfg * (h - int (Suc n))"
  have vs: "vstep h (Suc n) (b, cfg) mp = max mp new"
    using True clamp by (simp add: vstep_def new_def i_def)
  have ps_wf: "\<forall>c \<in> set ps. wf_solution c"
    using ps by (simp add: sols_ok_def sol_ok_def)
  have best_wf: "\<forall>c \<in> set best. wf_solution c"
    using cur by (simp add: sols_ok_def sol_ok_def)
  have bumped: "sol_ok h (Suc n) new (bump b c)" if "c \<in> set ps" for c
  proof -
    have "sol_ok h i (V h i) c" using that ps by (simp add: sols_ok_def)
    moreover have "int i + time cfg \<le> int (Suc n)" using i(1) by simp
    ultimately show ?thesis unfolding new_def using cfg by (intro sol_ok_bump)
  qed
  have inj: "inj_on (bump b) (set ps)"
  proof (rule inj_onI)
    fix x y assume "x \<in> set ps" "y \<in> set ps" "bump b x = bump b y"
    with ps_wf show "x = y" using cfg by (intro bump_inject [of x y b cfg]) simp_all
  qed
  consider (better) "mp < new" | (tie) "new = mp" | (worse) "new < mp" by linarith
  then show ?thesis
  proof cases
    case better
    have "try_building h (int (Suc n)) dp (b, cfg) (mp, best) = Inr (new, map (bump b) ps)"
      using True get better replace_solutions_ok [OF ps_wf cfg, of "[]"]
      by (simp add: try_building_def new_def pp)
    moreover have "sols_ok h (Suc n) new (map (bump b) ps)"
      using ps bumped inj by (auto simp: sols_ok_def distinct_map)
    ultimately show ?thesis using better vs by simp
  next
    case tie
    from merge_solutions_ok [OF ps_wf best_wf cfg] obtain best' where
      m: "merge_solutions b ps best = Inr best'" "set best' = set best \<union> bump b ` set ps"
        "distinct best \<longrightarrow> distinct best'" by blast
    have "try_building h (int (Suc n)) dp (b, cfg) (mp, best) = Inr (mp, best')"
      using True get tie m(1) by (simp add: try_building_def new_def pp)
    moreover have "sols_ok h (Suc n) mp best'"
      using cur m(2,3) bumped tie by (auto simp: sols_ok_def)
    ultimately show ?thesis using tie vs by auto
  next
    case worse
    have "try_building h (int (Suc n)) dp (b, cfg) (mp, best) = Inr (mp, best)"
      using True get worse by (simp add: try_building_def new_def pp)
    with cur worse vs show ?thesis by simp
  qed
qed

lemma buildings_loop_ok:
  assumes "set items \<subseteq> set BUILDINGS" and n: "int (Suc n) \<le> h"
    and tab: "table_ok h n dp" and cur: "sols_ok h (Suc n) mp best"
  shows "\<exists>best'. buildings_loop h (int (Suc n)) dp items (mp, best)
                   = Inr (fold (vstep h (Suc n)) items mp, best')
           \<and> sols_ok h (Suc n) (fold (vstep h (Suc n)) items mp) best'"
  using assms(1) cur
proof (induction items arbitrary: mp best)
  case Nil
  then show ?case by simp
next
  case (Cons item items)
  obtain b cfg where item: "item = (b, cfg)" by (cases item)
  with Cons.prems(1) have cfg: "(b, cfg) \<in> set BUILDINGS" by simp
  from try_building_ok [OF cfg n tab Cons.prems(2)] obtain best1 where
    s1: "try_building h (int (Suc n)) dp item (mp, best) = Inr (vstep h (Suc n) item mp, best1)"
      "sols_ok h (Suc n) (vstep h (Suc n) item mp) best1"
    unfolding item by blast
  from Cons.prems(1) have "set items \<subseteq> set BUILDINGS" by simp
  from Cons.IH [OF this s1(2)] s1(1) show ?case by simp
qed

lemma sols_ok_weaken:
  "sols_ok h t p S \<Longrightarrow> p' \<le> p \<Longrightarrow> t \<le> t' \<Longrightarrow> sols_ok h t' p' S"
  unfolding sols_ok_def by (blast intro: sol_ok_weaken)

lemma time_step_ok:
  assumes tab: "table_ok h k dp" and k: "int (Suc k) \<le> h"
  shows "\<exists>entry. py_get dp (int (Suc k) - 1) = Inr (dp ! k)
           \<and> buildings_loop h (int (Suc k)) dp BUILDINGS (dp ! k) = Inr entry
           \<and> py_set dp (int (Suc k)) entry = Inr (dp[Suc k := entry])
           \<and> table_ok h (Suc k) (dp[Suc k := entry])"
proof -
  have len: "length dp = Suc (nat h)" using tab by (simp add: table_ok_def)
  obtain p S where entry: "dp ! k = (p, S)" by (cases "dp ! k")
  have p: "p = V h k" and S: "sols_ok h k (V h k) S"
    using tab entry by (auto simp: table_ok_def)
  have get: "py_get dp (int (Suc k) - 1) = Inr (dp ! k)"
    using len k by (simp add: py_get_def)
  have seed: "sols_ok h (Suc k) (V h k) S"
    using S by (rule sols_ok_weaken) simp_all
  from buildings_loop_ok [OF subset_refl k tab seed] obtain best' where
    loop: "buildings_loop h (int (Suc k)) dp BUILDINGS (V h k, S) = Inr (V h (Suc k), best')"
    and best': "sols_ok h (Suc k) (V h (Suc k)) best'"
    unfolding V_Suc by blast
  have set: "py_set dp (int (Suc k)) (V h (Suc k), best') = Inr (dp[Suc k := (V h (Suc k), best')])"
  proof -
    have "nat (int (Suc k)) = Suc k" by (rule nat_int)
    moreover have "0 \<le> int (Suc k) \<and> int (Suc k) < int (length dp)" using len k by linarith
    ultimately show ?thesis unfolding py_set_def by (simp only: if_True simp_thms)
  qed
  have "table_ok h (Suc k) (dp[Suc k := (V h (Suc k), best')])"
    unfolding table_ok_def
  proof (intro conjI allI impI)
    show "length (dp[Suc k := (V h (Suc k), best')]) = Suc (nat h)" using len by simp
  next
    fix i assume i: "i \<le> Suc k"
    show "fst (dp[Suc k := (V h (Suc k), best')] ! i) = V h i"
      using i tab len k by (cases "i = Suc k") (auto simp: table_ok_def)
    show "sols_ok h i (V h i) (snd (dp[Suc k := (V h (Suc k), best')] ! i))"
      using i tab len k best' by (cases "i = Suc k") (auto simp: table_ok_def)
  qed
  with get loop set show ?thesis unfolding entry p by blast
qed

lemma time_loop_ok:
  assumes "table_ok h k dp" "int k \<le> h"
  shows "\<exists>dp'. time_loop h [int k + 1..h] dp = Inr dp' \<and> table_ok h (nat h) dp'"
  using assms
proof (induction "nat h - k" arbitrary: k dp)
  case 0
  have "0 \<le> h" using "0.prems"(2) by linarith
  with 0 have kh: "k = nat h" by linarith
  then have "[int k + 1..h] = []" using \<open>0 \<le> h\<close> by simp
  with "0.prems"(1) kh show ?case by simp
next
  case (Suc d)
  then have k: "int (Suc k) \<le> h" by simp
  from time_step_ok [OF Suc.prems(1) k] obtain entry where
    step: "py_get dp (int (Suc k) - 1) = Inr (dp ! k)"
      "buildings_loop h (int (Suc k)) dp BUILDINGS (dp ! k) = Inr entry"
      "py_set dp (int (Suc k)) entry = Inr (dp[Suc k := entry])"
      "table_ok h (Suc k) (dp[Suc k := entry])" by blast
  have d: "d = nat h - Suc k" using Suc.hyps(2) by simp
  from Suc.hyps(1) [OF d step(4) k] obtain dp' where
    rest: "time_loop h [int (Suc k) + 1..h] (dp[Suc k := entry]) = Inr dp'"
      "table_ok h (nat h) dp'" by blast
  have "[int k + 1..h] = int (Suc k) # [int (Suc k) + 1..h]"
    using k by (simp add: upto_rec1)
  moreover obtain p S where "dp ! k = (p, S)" by (cases "dp ! k")
  ultimately have "time_loop h [int k + 1..h] dp = Inr dp'"
    using step(1,2,3) rest(1) by simp
  with rest(2) show ?case by blast
qed

lemma wf_zero_solution: "wf_solution zero_solution"
  by (simp add: wf_solution_def zero_solution_def names_BUILDINGS)

lemma initial_table_ok:
  assumes "0 \<le> h"
  shows "table_ok h 0 (replicate (nat (h + 1)) (0, [zero_solution]))"
proof -
  have "mset [] = mset (instances zero_solution)"
    by (simp add: instances_def zero_solution_def)
  moreover have "span [] \<le> int 0" "(0::int) \<le> gain h 0 []" by (simp_all add: span_def)
  ultimately have "sol_ok h 0 0 zero_solution"
    unfolding sol_ok_def using wf_zero_solution by blast
  then have "sols_ok h 0 0 [zero_solution]" by (simp add: sols_ok_def)
  moreover have "nat (h + 1) = Suc (nat h)" using assms by simp
  ultimately show ?thesis by (simp add: table_ok_def)
qed

lemma solve_dp_ok:
  assumes "0 \<le> h"
  shows "\<exists>S. solve_dp_all_solutions h = Inr (V h (nat h), S) \<and> sols_ok h (nat h) (V h (nat h)) S"
proof -
  define dp where "dp = replicate (nat (h + 1)) (0 :: int, [zero_solution])"
  have alloc: "py_repeat (0 :: int, [zero_solution]) (h + 1) = Inr dp"
    using assms by (simp add: py_repeat_def dp_def)
  have "table_ok h 0 dp" unfolding dp_def using assms by (rule initial_table_ok)
  from time_loop_ok [OF this] assms obtain dp' where
    dp': "time_loop h [1..h] dp = Inr dp'" "table_ok h (nat h) dp'" by auto
  have len: "length dp' = Suc (nat h)" using dp'(2) by (simp add: table_ok_def)
  have get: "py_get dp' h = Inr (dp' ! nat h)"
    using len assms by (simp add: py_get_def)
  obtain p S where entry: "dp' ! nat h = (p, S)" by (cases "dp' ! nat h")
  with dp'(2) have "p = V h (nat h)" "sols_ok h (nat h) (V h (nat h)) S"
    by (auto simp: table_ok_def)
  moreover have "solve_dp_all_solutions h = Inr (p, S)"
    using alloc dp'(1) get entry by (simp add: solve_dp_all_solutions_def)
  ultimately show ?thesis by blast
qed

section \<open>The optimiser's result\<close>

lemma same_counts_wf:
  assumes "wf_solution a" "wf_solution b" "same_counts a b"
  shows "a = b"
proof -
  have keys: "map fst a = map fst b" "distinct (map fst a)"
    using assms(1,2) distinct_names by (simp_all add: wf_solution_def)
  have "set a \<subseteq> set b"
  proof
    fix x assume x: "x \<in> set a"
    obtain k v where kv: "x = (k, v)" by (cases x)
    with x have "k \<in> set (map fst BUILDINGS)"
      using assms(1) by (metis wf_solution_def list.set_map image_eqI fst_conv)
    then obtain cfg where cfg: "(k, cfg) \<in> set BUILDINGS" by auto
    from x kv keys(2) have "map_of a k = Some v" by simp
    moreover obtain v' where v': "map_of b k = Some v'"
      using wf_solution_key [OF assms(2) cfg] by blast
    moreover have "count_of a k = count_of b k"
      using assms(3) cfg by (auto simp: same_counts_def list_all_iff)
    ultimately have "map_of b k = Some v" by (simp add: count_of_def)
    then show "x \<in> set b" unfolding kv by (rule map_of_SomeD)
  qed
  with keys show ?thesis by (rule same_keys_subset_eq)
qed

text \<open>
  Claim C1. For every horizon \<open>h \<ge> 0\<close> the optimiser returns, as its maximum profit,
  the value \<open>V h h\<close> of the reference recurrence.
\<close>

theorem max_profit_is_reference_value:
  assumes "0 \<le> h"
  shows "\<exists>sols. solve_dp_all_solutions h = Inr (V h (nat h), sols)"
  using solve_dp_ok [OF assms] by blast

theorem max_profit_is_reference_value_witness:
  "(0::int) \<le> 10 \<and> (\<exists>sols. solve_dp_all_solutions 10 = Inr (V 10 (nat 10), sols))"
  using max_profit_is_reference_value [of 10] by simp

text \<open>
  Claim C2. For every horizon \<open>h \<ge> 0\<close> the list of solutions the optimiser returns is
  not empty, and no two of its entries are equal, neither by the dictionaries' \<open>==\<close> nor
  by having all per-type counts equal.
\<close>

theorem solutions_nonempty_distinct:
  assumes "0 \<le> h"
  shows "\<exists>p sols. solve_dp_all_solutions h = Inr (p, sols) \<and> sols \<noteq> [] \<and>
           (\<forall>i < length sols. \<forall>j < length sols.
              i \<noteq> j \<longrightarrow> \<not> dict_eq (sols ! i) (sols ! j) \<and> \<not> same_counts (sols ! i) (sols ! j))"
proof -
  from solve_dp_ok [OF assms] obtain S where
    S: "solve_dp_all_solutions h = Inr (V h (nat h), S)" "sols_ok h (nat h) (V h (nat h)) S"
    by blast
  have wf: "wf_solution c" if "c \<in> set S" for c
    using S(2) that by (simp add: sols_ok_def sol_ok_def)
  have "\<not> dict_eq (S ! i) (S ! j) \<and> \<not> same_counts (S ! i) (S ! j)"
    if ij: "i < length S" "j < length S" "i \<noteq> j" for i j
  proof -
    have ne: "S ! i \<noteq> S ! j"
      using S(2) ij by (simp add: sols_ok_def nth_eq_iff_index_eq)
    have wi: "wf_solution (S ! i)" and wj: "wf_solution (S ! j)"
      using ij wf by simp_all
    have "dict_eq (S ! i) (S ! j) \<longleftrightarrow> S ! i = S ! j"
      using wi wj distinct_names by (intro dict_eq_same_keys) (simp_all add: wf_solution_def)
    with ne same_counts_wf [OF wi wj] show ?thesis by blast
  qed
  moreover have "S \<noteq> []" using S(2) by (simp add: sols_ok_def)
  ultimately show ?thesis using S(1) by blast
qed

theorem solutions_nonempty_distinct_witness:
  "(0::int) \<le> 4 \<and> (\<exists>p sols. solve_dp_all_solutions 4 = Inr (p, sols) \<and> sols \<noteq> [] \<and>
           (\<forall>i < length sols. \<forall>j < length sols.
              i \<noteq> j \<longrightarrow> \<not> dict_eq (sols ! i) (sols ! j) \<and> \<not> same_counts (sols ! i) (sols ! j)))"
  using solutions_nonempty_distinct [of 4] by simp

text \<open>
  Claim C4. For every horizon \<open>h \<ge> 1\<close> the maximum profit at \<open>h\<close> is at least the
  maximum profit at \<open>h - 1\<close>.
\<close>

theorem max_profit_monotone_in_horizon:
  assumes "1 \<le> h"
  shows "\<exists>p q sols sols'. solve_dp_all_solutions h = Inr (p, sols)
           \<and> solve_dp_all_solutions (h - 1) = Inr (q, sols') \<and> q \<le> p"
proof -
  from assms have h: "0 \<le> h" "0 \<le> h - 1" by simp_all
  from solve_dp_ok [OF h(1)] obtain S where
    S: "solve_dp_all_solutions h = Inr (V h (nat h), S)" by blast
  from solve_dp_ok [OF h(2)] obtain S' where
    S': "solve_dp_all_solutions (h - 1) = Inr (V (h - 1) (nat (h - 1)), S')" by blast
  have "V (h - 1) (nat (h - 1)) \<le> V h (nat (h - 1))" by (rule V_horizon_mono) simp
  also have "\<dots> \<le> V h (nat h)" by (rule V_mono) simp
  finally show ?thesis using S S' by blast
qed

theorem max_profit_monotone_in_horizon_witness:
  "(1::int) \<le> 5 \<and> (\<exists>p q sols sols'. solve_dp_all_solutions 5 = Inr (p, sols)
           \<and> solve_dp_all_solutions (5 - 1) = Inr (q, sols') \<and> q \<le> p)"
  using max_profit_monotone_in_horizon [of 5] by simp

section \<open>The evaluator as a simulation\<close>

lemma valid_inner_simulate:
  assumes "dict_get BUILDINGS b = Inr cfg"
  shows "simulate_from h (replicate n b @ rest) (total_profit s, current_time s)
       = simulate_from h rest
           (total_profit (valid_inner h (time cfg) (earning cfg) n s),
            current_time (valid_inner h (time cfg) (earning cfg) n s))"
proof (induction n arbitrary: s)
  case 0
  show ?case by simp
next
  case (Suc n)
  define s2 where "s2 = (if h - (current_time s + time cfg) > 0
      then s\<lparr>current_time := current_time s + time cfg,
             total_profit := total_profit s + earning cfg * (h - (current_time s + time cfg))\<rparr>
      else s\<lparr>current_time := current_time s + time cfg\<rparr>)"
  have step: "valid_inner h (time cfg) (earning cfg) (Suc n) s
            = valid_inner h (time cfg) (earning cfg) n s2"
    by (simp add: s2_def Let_def)
  have "simulate_from h (replicate (Suc n) b @ rest) (total_profit s, current_time s)
      = simulate_from h (replicate n b @ rest) (total_profit s2, current_time s2)"
    using assms by (simp add: s2_def Let_def max_def)
  then show ?case unfolding step by (simp only: Suc.IH)
qed

lemma valid_outer_simulate:
  "map_sum fst (\<lambda>s. (total_profit s, current_time s)) (valid_outer h items s)
     = simulate_from h (instances items) (total_profit s, current_time s)"
proof (induction items arbitrary: s)
  case Nil
  show ?case by (simp add: instances_def)
next
  case (Cons item items)
  obtain b n where item: "item = (b, n)" by (cases item)
  have inst: "instances ((b, n) # items) = replicate (nat n) b @ instances items"
    by (simp add: instances_def)
  show ?case
  proof (cases "n > 0")
    case False
    then show ?thesis using Cons.IH [of s] by (simp add: item inst)
  next
    case True
    then obtain m where m: "nat n = Suc m" by (cases "nat n") auto
    show ?thesis
    proof (cases "dict_get BUILDINGS b")
      case (Inl e)
      then show ?thesis using True by (simp add: item inst m)
    next
      case (Inr cfg)
      then show ?thesis using True Cons.IH
        by (simp add: item inst valid_inner_simulate [OF Inr])
    qed
  qed
qed

lemma validate_solution_simulate:
  "validate_solution h c =
     (case simulate h (instances c) of
        Inl e \<Rightarrow> Inl e
      | Inr (profit, used) \<Rightarrow> Inr (used \<le> h, profit, validation_message used h profit))"
proof -
  have "map_sum fst (\<lambda>s. (total_profit s, current_time s)) (validate_solution_run h c)
      = simulate h (instances c)"
    using valid_outer_simulate [of h c "\<lparr>solution = c, total_profit = 0, current_time = 0\<rparr>"]
    by (simp add: validate_solution_run_def simulate_def)
  then have eq: "simulate h (instances c)
      = map_sum fst (\<lambda>s. (total_profit s, current_time s)) (validate_solution_run h c)"
    by (rule sym)
  show ?thesis unfolding eq
    by (cases "validate_solution_run h c") (auto simp: validate_solution_def Let_def)
qed

lemma simulate_from_names:
  assumes "set bs \<subseteq> set (map fst BUILDINGS)"
  shows "\<exists>p. simulate_from h bs (p0, now) = Inr (p, now + span bs)
           \<and> (now + span bs \<le> h \<longrightarrow> p = p0 + gain h now bs)"
  using assms
proof (induction bs arbitrary: p0 now)
  case Nil
  show ?case by (simp add: span_def)
next
  case (Cons b bs)
  then obtain cfg where cfg: "(b, cfg) \<in> set BUILDINGS" by auto
  note facts = in_BUILDINGS [OF cfg]
  define p1 where "p1 = p0 + earning cfg * max (h - (now + time cfg)) 0"
  from Cons.prems have "set bs \<subseteq> set (map fst BUILDINGS)" by simp
  from Cons.IH [OF this, of p1 "now + time cfg"] obtain p where
    p: "simulate_from h bs (p1, now + time cfg) = Inr (p, now + time cfg + span bs)"
      "now + time cfg + span bs \<le> h \<longrightarrow> p = p1 + gain h (now + time cfg) bs" by blast
  have sp: "span (b # bs) = time cfg + span bs" using facts by (simp add: span_def)
  have "simulate_from h (b # bs) (p0, now) = Inr (p, now + span (b # bs))"
    using p(1) facts sp by (simp add: dict_get_def p1_def Let_def add.assoc)
  moreover have "p = p0 + gain h now (b # bs)" if "now + span (b # bs) \<le> h"
  proof -
    have "0 \<le> span bs" by (rule span_nonneg)
    with that sp have "max (h - (now + time cfg)) 0 = h - (now + time cfg)" by simp
    with that p(2) sp facts show ?thesis by (simp add: p1_def add.assoc)
  qed
  ultimately show ?case by blast
qed

lemma set_instances: "set (instances c) \<subseteq> fst ` set c"
  by (force simp: instances_def)

lemma wf_solution_shape:
  assumes "wf_solution c"
  shows "\<exists>x y z. 0 \<le> x \<and> 0 \<le> y \<and> 0 \<le> z
           \<and> c = [(''Theatre'', x), (''Pub'', y), (''Commercial Park'', z)]"
proof -
  from assms have keys: "map fst c = [''Theatre'', ''Pub'', ''Commercial Park'']"
    and pos: "\<forall>e \<in> set c. 0 \<le> snd e"
    by (auto simp: wf_solution_def names_BUILDINGS list_all_iff)
  from keys obtain e1 c1 where c: "c = e1 # c1" and e1: "fst e1 = ''Theatre''"
    and k1: "map fst c1 = [''Pub'', ''Commercial Park'']"
    unfolding map_eq_Cons_conv by blast
  from k1 obtain e2 c2 where c1: "c1 = e2 # c2" and e2: "fst e2 = ''Pub''"
    and k2: "map fst c2 = [''Commercial Park'']"
    unfolding map_eq_Cons_conv by blast
  from k2 obtain e3 where c2: "c2 = [e3]" and e3: "fst e3 = ''Commercial Park''"
    unfolding map_eq_Cons_conv by blast
  have "c = [(''Theatre'', snd e1), (''Pub'', snd e2), (''Commercial Park'', snd e3)]"
    unfolding c c1 c2 e1 [symmetric] e2 [symmetric] e3 [symmetric] by simp
  moreover have "0 \<le> snd e1" "0 \<le> snd e2" "0 \<le> snd e3"
    using pos unfolding c c1 c2 by simp_all
  ultimately show ?thesis by blast
qed


lemma dur_values:
  "dur ''Theatre'' = 5" "dur ''Pub'' = 4" "dur ''Commercial Park'' = 10"
  by (simp_all add: dur_def BUILDINGS_def)

lemma span_replicate: "span (replicate n b @ bs) = int n * dur b + span bs"
  by (simp add: span_def sum_list_replicate)

lemma time_needed_wf:
  assumes "wf_solution c"
  shows "time_needed c = span (instances c)"
proof -
  from wf_solution_shape [OF assms] obtain x y z where
    pos: "0 \<le> x" "0 \<le> y" "0 \<le> z"
    and c: "c = [(''Theatre'', x), (''Pub'', y), (''Commercial Park'', z)]"
    by blast
  have "time_needed c = x * 5 + y * 4 + z * 10"
    unfolding c by (simp add: time_needed_def BUILDINGS_def count_of_def)
  moreover have "instances c
      = replicate (nat x) ''Theatre'' @ replicate (nat y) ''Pub''
          @ replicate (nat z) ''Commercial Park'' @ []"
    unfolding c by (simp add: instances_def)
  then have "span (instances c) = x * 5 + y * 4 + z * 10"
    using pos by (simp only: span_replicate dur_values) (simp add: span_def)
  ultimately show ?thesis by simp
qed

lemma instances_wf_names:
  assumes "wf_solution c"
  shows "set (instances c) \<subseteq> set (map fst BUILDINGS)"
proof -
  have "set (map fst BUILDINGS) = fst ` set c"
    using assms by (metis wf_solution_def list.set_map)
  then show ?thesis using set_instances [of c] by simp
qed

section \<open>The combinations the optimiser returns\<close>

lemma returned_solution_facts:
  assumes h: "0 \<le> h" and S: "sols_ok h (nat h) (V h (nat h)) S" and c: "c \<in> set S"
  shows "wf_solution c" "span (instances c) \<le> h"
    "\<exists>bs. mset bs = mset (instances c) \<and> simulate h bs = Inr (V h (nat h), span (instances c))"
    "\<exists>q. simulate h (instances c) = Inr (q, span (instances c)) \<and> q \<le> V h (nat h)"
proof -
  from S c have ok: "sol_ok h (nat h) (V h (nat h)) c" by (simp add: sols_ok_def)
  then show wf: "wf_solution c" by (simp add: sol_ok_def)
  from ok obtain bs where bs: "mset bs = mset (instances c)" "span bs \<le> int (nat h)"
    "V h (nat h) \<le> gain h 0 bs" by (auto simp: sol_ok_def)
  have names: "set (instances c) \<subseteq> set (map fst BUILDINGS)"
    using wf by (rule instances_wf_names)
  have bs_names: "set bs \<subseteq> set (map fst BUILDINGS)"
    using names mset_eq_setD [OF bs(1)] by simp
  have sp: "span bs = span (instances c)" using bs(1) by (rule span_mset)
  have le: "span bs \<le> h" using bs(2) h by simp
  then show fits: "span (instances c) \<le> h" using sp by simp
  have "gain h 0 bs \<le> V h (nat h)"
    using bs_names bs(2) h by (intro gain_le_V) simp_all
  with bs(3) have val: "gain h 0 bs = V h (nat h)" by simp
  from simulate_from_names [OF bs_names, of h 0 0] obtain p where
    "simulate_from h bs (0, 0) = Inr (p, 0 + span bs)" "0 + span bs \<le> h \<longrightarrow> p = 0 + gain h 0 bs"
    by blast
  with le val sp have "simulate h bs = Inr (V h (nat h), span (instances c))"
    by (simp add: simulate_def)
  with bs(1) show "\<exists>bs. mset bs = mset (instances c)
      \<and> simulate h bs = Inr (V h (nat h), span (instances c))" by blast
  from simulate_from_names [OF names, of h 0 0] obtain q where
    q: "simulate_from h (instances c) (0, 0) = Inr (q, 0 + span (instances c))"
      "0 + span (instances c) \<le> h \<longrightarrow> q = 0 + gain h 0 (instances c)"
    by blast
  have "gain h 0 (instances c) \<le> V h (nat h)"
    using names fits h by (intro gain_le_V) simp_all
  with q fits show "\<exists>q. simulate h (instances c) = Inr (q, span (instances c)) \<and> q \<le> V h (nat h)"
    by (simp add: simulate_def)
qed

lemma returned_solution_ok:
  assumes "0 \<le> h" "solve_dp_all_solutions h = Inr (p, sols)"
  shows "p = V h (nat h)" "sols_ok h (nat h) (V h (nat h)) sols"
  using solve_dp_ok [OF assms(1)] assms(2) by auto

text \<open>
  Claim C3. For every horizon \<open>h \<ge> 0\<close> and every combination the optimiser returns,
  some ordering of the combination's instances, simulated the evaluator's way (built back to
  back from time 0, each instance earning its rate for the periods left after it is
  finished, never less than none), yields exactly the returned maximum profit.
\<close>

theorem optimal_order_exists:
  assumes "0 \<le> h" "solve_dp_all_solutions h = Inr (p, sols)" "c \<in> set sols"
  shows "\<exists>bs used. mset bs = mset (instances c) \<and> simulate h bs = Inr (p, used)"
  using returned_solution_facts(3) [OF assms(1) returned_solution_ok(2) [OF assms(1,2)] assms(3)]
    returned_solution_ok(1) [OF assms(1,2)]
  by blast

text \<open>
  Claim C7. For every horizon \<open>h \<ge> 0\<close> and every combination the optimiser returns,
  \<open>validate_solution\<close> returns, and the profit it computes is at most the returned
  maximum profit.
\<close>

theorem canonical_profit_at_most_max:
  assumes "0 \<le> h" "solve_dp_all_solutions h = Inr (p, sols)" "c \<in> set sols"
  shows "\<exists>valid profit message.
           validate_solution h c = Inr (valid, profit, message) \<and> profit \<le> p"
proof -
  from returned_solution_facts(4) [OF assms(1) returned_solution_ok(2) [OF assms(1,2)] assms(3)]
  obtain q where "simulate h (instances c) = Inr (q, span (instances c))" "q \<le> V h (nat h)"
    by blast
  then show ?thesis
    using returned_solution_ok(1) [OF assms(1,2)]
    by (simp add: validate_solution_simulate)
qed

text \<open>
  Claim C10. For every horizon \<open>h \<ge> 0\<close> and every combination the optimiser returns,
  the construction time (the sum of count times duration over the building types) is at
  most \<open>h\<close>, and \<open>validate_solution\<close> returns \<open>is_valid = True\<close> for it.
\<close>

theorem returned_solutions_fit_horizon:
  assumes "0 \<le> h" "solve_dp_all_solutions h = Inr (p, sols)" "c \<in> set sols"
  shows "time_needed c \<le> h \<and>
         (\<exists>profit message. validate_solution h c = Inr (True, profit, message))"
proof -
  note ok = returned_solution_ok(2) [OF assms(1,2)]
  note facts = returned_solution_facts [OF assms(1) ok assms(3)]
  from facts(4) obtain q where "simulate h (instances c) = Inr (q, span (instances c))"
    by blast
  with facts(2) have "validate_solution h c
      = Inr (True, q, validation_message (span (instances c)) h q)"
    by (simp add: validate_solution_simulate)
  moreover have "time_needed c \<le> h"
    using facts(1,2) by (simp add: time_needed_wf)
  ultimately show ?thesis by blast
qed




theorem optimal_order_exists_witness:
  "(0::int) \<le> 5 \<and> solve_dp_all_solutions 5
       = Inr (1000, [[(''Theatre'', 0), (''Pub'', 1), (''Commercial Park'', 0)]])
   \<and> [(''Theatre'', 0), (''Pub'', 1), (''Commercial Park'', 0 :: int)]
       \<in> set [[(''Theatre'', 0), (''Pub'', 1), (''Commercial Park'', 0)]]
   \<and> (\<exists>bs used. mset bs = mset (instances [(''Theatre'', 0), (''Pub'', 1), (''Commercial Park'', 0)])
         \<and> simulate 5 bs = Inr (1000, used))"
proof -
  have run: "solve_dp_all_solutions 5
       = Inr (1000, [[(''Theatre'', 0), (''Pub'', 1), (''Commercial Park'', 0)]])"
    by code_simp
  have mem: "[(''Theatre'', 0), (''Pub'', 1), (''Commercial Park'', 0)]
       \<in> set [[(''Theatre'', 0), (''Pub'', 1), (''Commercial Park'', 0 :: int)]]"
    by simp
  have h: "(0::int) \<le> 5" by simp
  show ?thesis by (intro conjI h run mem optimal_order_exists [OF h run mem])
qed

theorem canonical_profit_at_most_max_witness:
  "(0::int) \<le> 10 \<and> solve_dp_all_solutions 10
       = Inr (8500, [[(''Theatre'', 1), (''Pub'', 1), (''Commercial Park'', 0)]])
   \<and> [(''Theatre'', 1), (''Pub'', 1), (''Commercial Park'', 0 :: int)]
       \<in> set [[(''Theatre'', 1), (''Pub'', 1), (''Commercial Park'', 0)]]
   \<and> (\<exists>valid profit message.
         validate_solution 10 [(''Theatre'', 1), (''Pub'', 1), (''Commercial Park'', 0)]
           = Inr (valid, profit, message) \<and> profit \<le> 8500)"
proof -
  have run: "solve_dp_all_solutions 10
       = Inr (8500, [[(''Theatre'', 1), (''Pub'', 1), (''Commercial Park'', 0)]])"
    by code_simp
  have mem: "[(''Theatre'', 1), (''Pub'', 1), (''Commercial Park'', 0)]
       \<in> set [[(''Theatre'', 1), (''Pub'', 1), (''Commercial Park'', 0 :: int)]]"
    by simp
  have h: "(0::int) \<le> 10" by simp
  show ?thesis by (intro conjI h run mem canonical_profit_at_most_max [OF h run mem])
qed

theorem returned_solutions_fit_horizon_witness:
  "(0::int) \<le> 4 \<and> solve_dp_all_solutions 4
       = Inr (0, [[(''Theatre'', 0), (''Pub'', 0), (''Commercial Park'', 0)],
                 [(''Theatre'', 0), (''Pub'', 1), (''Commercial Park'', 0)]])
   \<and> [(''Theatre'', 0), (''Pub'', 1), (''Commercial Park'', 0 :: int)]
       \<in> set [[(''Theatre'', 0), (''Pub'', 0), (''Commercial Park'', 0)],
                [(''Theatre'', 0), (''Pub'', 1), (''Commercial Park'', 0)]]
   \<and> time_needed [(''Theatre'', 0), (''Pub'', 1), (''Commercial Park'', 0)] \<le> 4
   \<and> (\<exists>profit message.
         validate_solution 4 [(''Theatre'', 0), (''Pub'', 1), (''Commercial Park'', 0)]
           = Inr (True, profit, message))"
proof -
  have run: "solve_dp_all_solutions 4
       = Inr (0, [[(''Theatre'', 0), (''Pub'', 0), (''Commercial Park'', 0)],
                 [(''Theatre'', 0), (''Pub'', 1), (''Commercial Park'', 0)]])"
    by code_simp
  have mem: "[(''Theatre'', 0), (''Pub'', 1), (''Commercial Park'', 0)]
       \<in> set [[(''Theatre'', 0), (''Pub'', 0), (''Commercial Park'', 0)],
                [(''Theatre'', 0), (''Pub'', 1), (''Commercial Park'', 0 :: int)]]"
    by simp
  have h: "(0::int) \<le> 4" by simp
  note fit = returned_solutions_fit_horizon [OF h run mem]
  show ?thesis by (intro conjI h run mem conjunct1 [OF fit] conjunct2 [OF fit])
qed

end
